theory Spec2Isabelle
  imports Complex_Main "HOL-Library.Word"
begin

unbundle bit_operations_syntax

section \<open>The FFI surface of the 7z SDK (src/ffi_interface.c)\<close>

subsection \<open>Error codes and their messages\<close>

text \<open>
  The enumeration \<open>SevenZipErrorCode\<close> is declared in \<open>7z_ffi.h\<close>, which is not among
  the sources. The datatype below lists the enumerators that the sources name: they are
  exactly the case labels of the switch in \<open>sevenzip_get_error_message\<close>, and no other
  \<open>SEVENZIP_ERROR_...\<close> name occurs anywhere in the sources.
\<close>

datatype SevenZipErrorCode =
    SEVENZIP_OK
  | SEVENZIP_ERROR_OPEN_FILE
  | SEVENZIP_ERROR_INVALID_ARCHIVE
  | SEVENZIP_ERROR_MEMORY
  | SEVENZIP_ERROR_EXTRACT
  | SEVENZIP_ERROR_COMPRESS
  | SEVENZIP_ERROR_INVALID_PARAM
  | SEVENZIP_ERROR_NOT_IMPLEMENTED

text \<open>
  A C enumeration value is an integer, and a caller can pass any integer. The numeric value
  of each enumerator is fixed by the missing header, so it is a parameter \<open>E\<close> of the
  model. The switch compares the argument with the case labels; C demands that the labels
  of one switch are pairwise different, so for an injective \<open>E\<close> the chain of tests below
  is the switch.
\<close>

definition sevenzip_get_error_message :: "(SevenZipErrorCode \<Rightarrow> int) \<Rightarrow> int \<Rightarrow> string" where
  "sevenzip_get_error_message E error_code =
     (if error_code = E SEVENZIP_OK then ''Success''
      else if error_code = E SEVENZIP_ERROR_OPEN_FILE then ''Failed to open file''
      else if error_code = E SEVENZIP_ERROR_INVALID_ARCHIVE then ''Invalid or corrupted archive''
      else if error_code = E SEVENZIP_ERROR_MEMORY then ''Memory allocation failed''
      else if error_code = E SEVENZIP_ERROR_EXTRACT then ''Extraction failed''
      else if error_code = E SEVENZIP_ERROR_COMPRESS then ''Compression failed''
      else if error_code = E SEVENZIP_ERROR_INVALID_PARAM then ''Invalid parameter''
      else if error_code = E SEVENZIP_ERROR_NOT_IMPLEMENTED then ''Feature not implemented''
      else ''Unknown error'')"

text \<open>The string literals of the function: the only values it can return.\<close>

definition error_messages :: "string list" where
  "error_messages =
     [''Success'', ''Failed to open file'', ''Invalid or corrupted archive'',
      ''Memory allocation failed'', ''Extraction failed'', ''Compression failed'',
      ''Invalid parameter'', ''Feature not implemented'', ''Unknown error'']"

text \<open>
  One numbering of the enumerators, in the order of the switch, used to evaluate the
  function on concrete codes.
\<close>

fun enum_order :: "SevenZipErrorCode \<Rightarrow> int" where
  "enum_order SEVENZIP_OK = 0"
| "enum_order SEVENZIP_ERROR_OPEN_FILE = 1"
| "enum_order SEVENZIP_ERROR_INVALID_ARCHIVE = 2"
| "enum_order SEVENZIP_ERROR_MEMORY = 3"
| "enum_order SEVENZIP_ERROR_EXTRACT = 4"
| "enum_order SEVENZIP_ERROR_COMPRESS = 5"
| "enum_order SEVENZIP_ERROR_INVALID_PARAM = 6"
| "enum_order SEVENZIP_ERROR_NOT_IMPLEMENTED = 7"

text \<open>
  The error taxonomy of the specification, and for each of its conditions the enumerator
  of the sources that stands for it. Three conditions have no enumerator: the sources
  contain no code for a resume mismatch, for a wrong password, or for a cancellation.
\<close>

datatype error_condition =
    OpenFileFailed
  | InvalidOrCorruptArchive
  | MemoryAllocationFailed
  | ExtractFailed
  | CompressFailed
  | InvalidParameter
  | NotImplemented
  | InvalidResume
  | WrongPasswordOrCorrupt
  | Cancelled

fun condition_code :: "error_condition \<Rightarrow> SevenZipErrorCode option" where
  "condition_code OpenFileFailed = Some SEVENZIP_ERROR_OPEN_FILE"
| "condition_code InvalidOrCorruptArchive = Some SEVENZIP_ERROR_INVALID_ARCHIVE"
| "condition_code MemoryAllocationFailed = Some SEVENZIP_ERROR_MEMORY"
| "condition_code ExtractFailed = Some SEVENZIP_ERROR_EXTRACT"
| "condition_code CompressFailed = Some SEVENZIP_ERROR_COMPRESS"
| "condition_code InvalidParameter = Some SEVENZIP_ERROR_INVALID_PARAM"
| "condition_code NotImplemented = Some SEVENZIP_ERROR_NOT_IMPLEMENTED"
| "condition_code InvalidResume = None"
| "condition_code WrongPasswordOrCorrupt = None"
| "condition_code Cancelled = None"

text \<open>
  A condition has a specific message when it has an error code and the message of that
  code is not the default of the switch.
\<close>

definition has_specific_message :: "(SevenZipErrorCode \<Rightarrow> int) \<Rightarrow> error_condition \<Rightarrow> bool" where
  "has_specific_message E c =
     (case condition_code c of
        None \<Rightarrow> False
      | Some e \<Rightarrow> sevenzip_get_error_message E (E e) \<noteq> ''Unknown error'')"

text \<open>
  The message that \<open>sevenzip_get_error_message\<close> returns for the error code of a
  condition, when the condition has an error code.
\<close>

definition condition_message :: "(SevenZipErrorCode \<Rightarrow> int) \<Rightarrow> error_condition \<Rightarrow> string option" where
  "condition_message E c =
     (case condition_code c of
        None \<Rightarrow> None
      | Some e \<Rightarrow> Some (sevenzip_get_error_message E (E e)))"

subsection \<open>Initialisation and cleanup\<close>

text \<open>
  The library state is the flag \<open>g_initialized\<close> together with whatever
  \<open>CrcGenerateTable\<close> (of the LZMA SDK, not among the sources) writes: the CRC table,
  of an arbitrary type \<open>'t\<close>. \<open>CrcGenerateTable\<close> is a parameter of \<open>sevenzip_init\<close>.
\<close>

record 't lib_state =
  g_initialized :: int
  crc_table :: 't

definition sevenzip_init :: "('t \<Rightarrow> 't) \<Rightarrow> 't lib_state \<Rightarrow> SevenZipErrorCode \<times> 't lib_state" where
  "sevenzip_init CrcGenerateTable s =
     (if g_initialized s \<noteq> 0 then (SEVENZIP_OK, s)
      else (SEVENZIP_OK, s\<lparr>crc_table := CrcGenerateTable (crc_table s), g_initialized := 1\<rparr>))"

definition sevenzip_cleanup :: "'t lib_state \<Rightarrow> 't lib_state" where
  "sevenzip_cleanup s = (if g_initialized s = 0 then s else s\<lparr>g_initialized := 0\<rparr>)"

text \<open>The state after \<open>n\<close> calls of \<open>sevenzip_init\<close> in a row.\<close>

fun init_times :: "nat \<Rightarrow> ('t \<Rightarrow> 't) \<Rightarrow> 't lib_state \<Rightarrow> 't lib_state" where
  "init_times 0 gen s = s"
| "init_times (Suc n) gen s = init_times n gen (snd (sevenzip_init gen s))"

subsection \<open>The legacy compress entry point\<close>

text \<open>
  Modelled from the spec: the declaration of \<open>SevenZipCompressOptions\<close> (in \<open>7z_ffi.h\<close>)
  is not among the sources. The record has the four fields that \<open>sevenzip_compress\<close>
  assigns; the initialiser \<open>{0}\<close> sets every field to zero, the password to the null
  pointer (\<open>None\<close>).
\<close>

record SevenZipCompressOptions =
  num_threads :: int
  dict_size :: nat
  solid :: int
  password :: "string option"

definition zero_options :: SevenZipCompressOptions where
  "zero_options = \<lparr>num_threads = 0, dict_size = 0, solid = 0, password = None\<rparr>"

text \<open>
  \<open>sevenzip_create_7z\<close> is not among the sources: it is a parameter, a function of its
  six arguments and of the state of the world \<open>'w\<close> (files, the callback's effects) that
  returns its result and the new world.
\<close>

definition sevenzip_compress ::
  "('p \<Rightarrow> 'i \<Rightarrow> 'l \<Rightarrow> SevenZipCompressOptions \<Rightarrow> 'c \<Rightarrow> 'u \<Rightarrow> 'w \<Rightarrow> 'r \<times> 'w) \<Rightarrow>
   'p \<Rightarrow> 'i \<Rightarrow> 'l \<Rightarrow> string option \<Rightarrow> 'c \<Rightarrow> 'u \<Rightarrow> 'w \<Rightarrow> 'r \<times> 'w" where
  "sevenzip_compress sevenzip_create_7z archive_path input_paths level pw progress_callback user_data w =
     (let options = zero_options;
          options = options\<lparr>num_threads := 0\<rparr>;
          options = options\<lparr>dict_size := 0\<rparr>;
          options = options\<lparr>solid := 1\<rparr>;
          options = options\<lparr>password := pw\<rparr>
      in sevenzip_create_7z archive_path input_paths level options progress_callback user_data w)"

text \<open>The default options in the words of the specification.\<close>

definition default_options :: "string option \<Rightarrow> SevenZipCompressOptions" where
  "default_options pw = \<lparr>num_threads = 0, dict_size = 0, solid = 1, password = pw\<rparr>"

subsection \<open>Freeing an archive listing\<close>

text \<open>
  \<open>sevenzip_free_list\<close> works on heap objects through pointers. A pointer is an address
  or the null pointer (\<open>None\<close>). The heap holds the list structures, the entry arrays, and
  the set of blocks that are allocated and not yet freed. Reading through a pointer is
  a fault when the pointer is null, dangling or out of range, and \<open>free\<close> of a block that
  is not allocated is a fault; \<open>free\<close> of the null pointer does nothing, as in C.

  Modelled from the spec: the declarations of \<open>SevenZipList\<close> and \<open>SevenZipEntry\<close> (in
  \<open>7z_ffi.h\<close>) are not among the sources. The records have the fields that
  \<open>sevenzip_free_list\<close> reads: \<open>entries\<close> and \<open>count\<close> of the list, \<open>name\<close> of an entry.
\<close>

type_synonym addr = nat

datatype fault = NullDereference | InvalidPointer | OutOfBounds | InvalidFree

record SevenZipEntry =
  name :: "addr option"

record SevenZipList =
  entries :: "addr option"
  count :: nat

record heap =
  list_at :: "addr \<rightharpoonup> SevenZipList"
  array_at :: "addr \<rightharpoonup> SevenZipEntry list"
  live :: "addr set"

definition free :: "heap \<Rightarrow> addr option \<Rightarrow> fault + heap" where
  "free h p =
     (case p of
        None \<Rightarrow> Inr h
      | Some a \<Rightarrow> if a \<in> live h then Inr (h\<lparr>live := live h - {a}\<rparr>) else Inl InvalidFree)"

definition read_list :: "heap \<Rightarrow> addr option \<Rightarrow> fault + SevenZipList" where
  "read_list h p =
     (case p of
        None \<Rightarrow> Inl NullDereference
      | Some a \<Rightarrow>
          if a \<in> live h then (case list_at h a of None \<Rightarrow> Inl InvalidPointer | Some L \<Rightarrow> Inr L)
          else Inl InvalidPointer)"

definition read_entry :: "heap \<Rightarrow> addr option \<Rightarrow> nat \<Rightarrow> fault + SevenZipEntry" where
  "read_entry h p i =
     (case p of
        None \<Rightarrow> Inl NullDereference
      | Some a \<Rightarrow>
          if a \<in> live h then
            (case array_at h a of
               None \<Rightarrow> Inl InvalidPointer
             | Some es \<Rightarrow> if i < length es then Inr (es ! i) else Inl OutOfBounds)
          else Inl InvalidPointer)"

text \<open>
  The loop \<open>for (i = 0; i < list->count; i++)\<close>, from index \<open>i\<close> on. Each round reads
  \<open>list->count\<close>, \<open>list->entries[i].name\<close> through the pointers again, as the C does.
\<close>

function free_names :: "heap \<Rightarrow> addr option \<Rightarrow> nat \<Rightarrow> fault + heap" where
  "free_names h list i =
     (case read_list h list of
        Inl e \<Rightarrow> Inl e
      | Inr L \<Rightarrow>
          if i < count L then
            (case read_entry h (entries L) i of
               Inl e \<Rightarrow> Inl e
             | Inr ent \<Rightarrow>
                 (case (if name ent \<noteq> None then free h (name ent) else Inr h) of
                    Inl e \<Rightarrow> Inl e
                  | Inr h' \<Rightarrow> free_names h' list (i + 1)))
          else Inr h)"
  by pat_completeness auto
termination
  apply (relation "measure (\<lambda>(h, list, i).
           (case list of None \<Rightarrow> 0
            | Some a \<Rightarrow> (case list_at h a of None \<Rightarrow> 0 | Some L \<Rightarrow> count L - i)))")
   apply (auto simp: read_list_def free_def split: option.splits if_splits)
  done

declare free_names.simps [simp del]

definition sevenzip_free_list :: "heap \<Rightarrow> addr option \<Rightarrow> fault + heap" where
  "sevenzip_free_list h list =
     (if list = None then Inr h
      else
        (case read_list h list of
           Inl e \<Rightarrow> Inl e
         | Inr L \<Rightarrow>
             if entries L \<noteq> None then
               (case free_names h list 0 of
                  Inl e \<Rightarrow> Inl e
                | Inr h1 \<Rightarrow>
                    (case read_list h1 list of
                       Inl e \<Rightarrow> Inl e
                     | Inr L1 \<Rightarrow>
                         (case free h1 (entries L1) of
                            Inl e \<Rightarrow> Inl e
                          | Inr h2 \<Rightarrow> free h2 list)))
             else free h list))"

text \<open>The non-null name pointers of a sequence of entries, in order.\<close>

definition names_of :: "SevenZipEntry list \<Rightarrow> addr list" where
  "names_of es = List.map_filter name es"

text \<open>
  A heap with two listings: at 10 a list of three entries (array at 20, names at 30 and
  40, the second name null), at 50 a list whose \<open>entries\<close> pointer is null.
\<close>

definition example_heap :: heap where
  "example_heap =
     \<lparr>list_at = [10 \<mapsto> \<lparr>entries = Some 20, count = 3\<rparr>, 50 \<mapsto> \<lparr>entries = None, count = 7\<rparr>],
      array_at = [20 \<mapsto> [\<lparr>name = Some 30\<rparr>, \<lparr>name = None\<rparr>, \<lparr>name = Some 40\<rparr>]],
      live = {10, 20, 30, 40, 50, 90}\<rparr>"

section \<open>The forensic archiver (examples/forensic_archiver.c)\<close>

subsection \<open>Progress tracking\<close>

text \<open>
  \<open>forensic_progress_callback\<close> computes the speed in C doubles. The model does not fix
  the arithmetic of doubles: the conversions from integers, the division, the product,
  the sum and the value of a decimal literal are the fields of a parameter \<open>D\<close>, over
  an arbitrary type \<open>'d\<close> of doubles. What is proved holds for every such arithmetic.
\<close>

record 'd double_ops =
  of_uint64 :: "64 word \<Rightarrow> 'd"
  of_time :: "int \<Rightarrow> 'd"
  fdiv :: "'d \<Rightarrow> 'd \<Rightarrow> 'd"
  fmul :: "'d \<Rightarrow> 'd \<Rightarrow> 'd"
  fadd :: "'d \<Rightarrow> 'd \<Rightarrow> 'd"
  literal :: "rat \<Rightarrow> 'd"

text \<open>
  The struct \<open>ProgressState\<close>. Times (\<open>time_t\<close>) are integers, byte counts are
  \<open>uint64_t\<close>, the count of updates is a C \<open>int\<close>.
\<close>

record 'd ProgressState =
  start_time :: int
  last_bytes :: "64 word"
  last_update_time :: int
  avg_speed :: 'd
  update_count :: int

definition INT_MAX :: int where
  "INT_MAX = 2 ^ 31 - 1"

text \<open>The local \<open>current_speed\<close> of the callback: bytes per second since the last update.\<close>

definition current_speed :: "'d double_ops \<Rightarrow> int \<Rightarrow> 64 word \<Rightarrow> 'd ProgressState \<Rightarrow> 'd" where
  "current_speed D now bytes_processed state =
     (let bytes_diff = bytes_processed - last_bytes state;
          time_diff = now - last_update_time state
      in fdiv D (of_uint64 D bytes_diff) (of_time D time_diff))"

text \<open>
  The callback's effect on \<open>*state\<close> (lines 126 to 144), given the clock reading \<open>now\<close> of
  \<open>time(NULL)\<close>. The rest of the function formats and prints and does not write the state.
  The difference \<open>bytes_processed - state->last_bytes\<close> is unsigned and wraps. The
  division is reached only with \<open>time_diff > 0\<close>. \<open>update_count++\<close> at \<open>INT_MAX\<close> is
  undefined in C: the model returns \<open>None\<close> there.
\<close>

definition forensic_progress_callback ::
  "'d double_ops \<Rightarrow> int \<Rightarrow> 64 word \<Rightarrow> 'd ProgressState \<Rightarrow> 'd ProgressState option" where
  "forensic_progress_callback D now bytes_processed state =
     (if now > last_update_time state then
        (let speed = current_speed D now bytes_processed state;
             state1 = (if update_count state = 0 then state\<lparr>avg_speed := speed\<rparr>
                       else state\<lparr>avg_speed :=
                              fadd D (fmul D (avg_speed state) (literal D (7 / 10)))
                                     (fmul D speed (literal D (3 / 10)))\<rparr>);
             state2 = state1\<lparr>last_bytes := bytes_processed\<rparr>;
             state3 = state2\<lparr>last_update_time := now\<rparr>
         in if update_count state3 = INT_MAX then None
            else Some (state3\<lparr>update_count := update_count state3 + 1\<rparr>))
      else Some state)"

text \<open>A run of the callback over a sequence of calls (clock reading, bytes processed).\<close>

fun run_callbacks ::
  "'d double_ops \<Rightarrow> (int \<times> 64 word) list \<Rightarrow> 'd ProgressState \<Rightarrow> 'd ProgressState option" where
  "run_callbacks D [] state = Some state"
| "run_callbacks D ((now, bytes_processed) # calls) state =
     (case forensic_progress_callback D now bytes_processed state of
        None \<Rightarrow> None
      | Some state' \<Rightarrow> run_callbacks D calls state')"

text \<open>Exact rational arithmetic, as one instance of the arithmetic parameter.\<close>

definition exact_ops :: "rat double_ops" where
  "exact_ops = \<lparr>of_uint64 = (\<lambda>w. of_nat (unat w)), of_time = of_int, fdiv = (/), fmul = (*),
                 fadd = (+), literal = id\<rparr>"

text \<open>
  The state that \<open>main\<close> sets up: \<open>{0}\<close>, then \<open>start_time\<close> and \<open>last_update_time\<close> set to
  the current time.
\<close>

definition zero_progress :: "int \<Rightarrow> rat ProgressState" where
  "zero_progress t = \<lparr>start_time = t, last_bytes = 0, last_update_time = t, avg_speed = 0,
                       update_count = 0\<rparr>"

subsection \<open>Size arguments\<close>













section \<open>The encryption subsystem (called by examples/test_aes.c)\<close>

text \<open>
  Modelled from the spec: \<open>sevenzip_init_encryption\<close>, \<open>sevenzip_init_decryption\<close>,
  \<open>sevenzip_encrypt_data\<close> and \<open>sevenzip_decrypt_data\<close> are called by
  \<open>examples/test_aes.c\<close>, but their code is not among the sources. The definitions of this
  section follow section 4.3 of the specification. The block cipher and the key
  derivation are collaborators there: they are the fields of a parameter \<open>C\<close>. \<open>derive\<close>
  is the deterministic procedure from password and salt to key and IV, \<open>expand_key\<close> builds
  the cipher context (the round-key schedule) of a key, \<open>encrypt_block\<close> and
  \<open>decrypt_block\<close> work on one block of 16 bytes.
\<close>

type_synonym byte = "8 word"

record 'c crypto =
  derive :: "string \<Rightarrow> byte list \<Rightarrow> byte list \<times> byte list"
  expand_key :: "byte list \<Rightarrow> 'c"
  encrypt_block :: "'c \<Rightarrow> byte list \<Rightarrow> byte list"
  decrypt_block :: "'c \<Rightarrow> byte list \<Rightarrow> byte list"

text \<open>
  Modelled from the spec: \<open>init_encryption(password) -> (key, iv, salt, cipher_context)\<close>.
  The fresh random salt is an input, drawn by the caller of the model.
\<close>

definition sevenzip_init_encryption ::
  "'c crypto \<Rightarrow> string \<Rightarrow> byte list \<Rightarrow> byte list \<times> byte list \<times> byte list \<times> 'c" where
  "sevenzip_init_encryption C pw salt =
     (let (key, iv) = derive C pw salt in (key, iv, salt, expand_key C key))"

text \<open>
  Modelled from the spec: \<open>init_decryption(password, salt) -> (key, cipher_context)\<close>
  derives the key again from the password and the stored salt.
\<close>

definition sevenzip_init_decryption :: "'c crypto \<Rightarrow> string \<Rightarrow> byte list \<Rightarrow> byte list \<times> 'c" where
  "sevenzip_init_decryption C pw salt =
     (let (key, iv) = derive C pw salt in (key, expand_key C key))"

text \<open>
  Modelled from the spec: the padding "to a whole number of 16-byte blocks" with "a schema
  encoding the pad length": \<open>n\<close> bytes of value \<open>n\<close>, with \<open>n\<close> from 1 to 16. Stripping it
  checks that structure and fails with WrongPasswordOrCorrupt otherwise.
\<close>

definition pad :: "byte list \<Rightarrow> byte list" where
  "pad plaintext =
     (let n = 16 - length plaintext mod 16 in plaintext @ replicate n (of_nat n))"

definition unpad :: "byte list \<Rightarrow> error_condition + byte list" where
  "unpad bs =
     (if bs = [] then Inl WrongPasswordOrCorrupt
      else
        (let n = unat (last bs)
         in if n = 0 \<or> 16 < n \<or> length bs < n
               \<or> drop (length bs - n) bs \<noteq> replicate n (last bs)
            then Inl WrongPasswordOrCorrupt
            else Inr (take (length bs - n) bs)))"

text \<open>Modelled from the spec: the data "block-by-block", in blocks of 16 bytes.\<close>

function split_blocks :: "byte list \<Rightarrow> byte list list" where
  "split_blocks bs = (if bs = [] then [] else take 16 bs # split_blocks (drop 16 bs))"
  by pat_completeness auto
termination
  by (relation "measure length") auto

declare split_blocks.simps [simp del]

text \<open>
  Modelled from the spec: the IV "seeds block-cipher chaining": each plaintext block is
  combined with the previous ciphertext block, the first one with the IV, before it is
  encrypted.
\<close>

definition xor_bytes :: "byte list \<Rightarrow> byte list \<Rightarrow> byte list" where
  "xor_bytes a b = map (\<lambda>(x, y). x XOR y) (zip a b)"

fun cbc_encrypt :: "'c crypto \<Rightarrow> 'c \<Rightarrow> byte list \<Rightarrow> byte list list \<Rightarrow> byte list list" where
  "cbc_encrypt C ctx prev [] = []"
| "cbc_encrypt C ctx prev (p # ps) =
     (let c = encrypt_block C ctx (xor_bytes p prev) in c # cbc_encrypt C ctx c ps)"

fun cbc_decrypt :: "'c crypto \<Rightarrow> 'c \<Rightarrow> byte list \<Rightarrow> byte list list \<Rightarrow> byte list list" where
  "cbc_decrypt C ctx prev [] = []"
| "cbc_decrypt C ctx prev (c # cs) =
     xor_bytes (decrypt_block C ctx c) prev # cbc_decrypt C ctx c cs"

text \<open>
  Modelled from the spec: \<open>encrypt(cipher_context, iv, plaintext) -> ciphertext\<close> pads, then
  encrypts block by block; \<open>decrypt(cipher_context, iv, ciphertext) -> plaintext\<close> decrypts
  block by block, then validates and strips the padding. A ciphertext that is empty or
  not a whole number of blocks is corrupt.
\<close>

definition sevenzip_encrypt_data :: "'c crypto \<Rightarrow> 'c \<Rightarrow> byte list \<Rightarrow> byte list \<Rightarrow> byte list" where
  "sevenzip_encrypt_data C ctx iv plaintext = concat (cbc_encrypt C ctx iv (split_blocks (pad plaintext)))"

definition sevenzip_decrypt_data ::
  "'c crypto \<Rightarrow> 'c \<Rightarrow> byte list \<Rightarrow> byte list \<Rightarrow> error_condition + byte list" where
  "sevenzip_decrypt_data C ctx iv ciphertext =
     (if ciphertext = [] \<or> length ciphertext mod 16 \<noteq> 0 then Inl WrongPasswordOrCorrupt
      else unpad (concat (cbc_decrypt C ctx iv (split_blocks ciphertext))))"

text \<open>
  Modelled from the spec: "a correct, available block-cipher implementation is assumed as
  a collaborator": under every context, decrypting an encrypted block gives the block,
  and a block stays a block.
\<close>

definition correct_cipher :: "'c crypto \<Rightarrow> bool" where
  "correct_cipher C =
     (\<forall>ctx b. length b = 16 \<longrightarrow>
        length (encrypt_block C ctx b) = 16
        \<and> decrypt_block C ctx (encrypt_block C ctx b) = b)"

text \<open>A small instance of the parameter, to run the model on concrete data.\<close>

definition toy_crypto :: "byte crypto" where
  "toy_crypto =
     \<lparr>derive = (\<lambda>pw salt. (map (of_nat \<circ> of_char) pw @ salt, replicate 16 (of_nat (length pw)))),
      expand_key = sum_list,
      encrypt_block = (\<lambda>k b. map (\<lambda>x. x + k) b),
      decrypt_block = (\<lambda>k b. map (\<lambda>x. x - k) b)\<rparr>"

section \<open>Properties\<close>

subsection \<open>Error messages\<close>

lemma inj_enum_order: "inj enum_order"
proof (rule injI)
  fix x y assume "enum_order x = enum_order y"
  then show "x = y" by (cases x; cases y) simp_all
qed

lemma message_of_label:
  assumes "inj E"
  shows "sevenzip_get_error_message E (E SEVENZIP_OK) = ''Success''"
    and "sevenzip_get_error_message E (E SEVENZIP_ERROR_OPEN_FILE) = ''Failed to open file''"
    and "sevenzip_get_error_message E (E SEVENZIP_ERROR_INVALID_ARCHIVE) = ''Invalid or corrupted archive''"
    and "sevenzip_get_error_message E (E SEVENZIP_ERROR_MEMORY) = ''Memory allocation failed''"
    and "sevenzip_get_error_message E (E SEVENZIP_ERROR_EXTRACT) = ''Extraction failed''"
    and "sevenzip_get_error_message E (E SEVENZIP_ERROR_COMPRESS) = ''Compression failed''"
    and "sevenzip_get_error_message E (E SEVENZIP_ERROR_INVALID_PARAM) = ''Invalid parameter''"
    and "sevenzip_get_error_message E (E SEVENZIP_ERROR_NOT_IMPLEMENTED) = ''Feature not implemented''"
  using assms by (simp_all add: sevenzip_get_error_message_def inj_eq)

lemma message_default:
  "error_code \<notin> range E \<Longrightarrow> sevenzip_get_error_message E error_code = ''Unknown error''"
  by (auto simp: sevenzip_get_error_message_def)

lemma message_in_table: "sevenzip_get_error_message E error_code \<in> set error_messages"
  by (simp add: sevenzip_get_error_message_def error_messages_def)

lemma error_messages_distinct: "distinct error_messages"
  by (simp add: error_messages_def)

text \<open>
  Claim C4, as the code has it. The claim asks that each of the ten conditions of the
  taxonomy has an error code whose message is specific. Seven of them have: for every
  numbering of the enumerators, OpenFileFailed gets "Failed to open file",
  InvalidOrCorruptArchive gets "Invalid or corrupted archive", MemoryAllocationFailed
  gets "Memory allocation failed", ExtractFailed gets "Extraction failed", CompressFailed
  gets "Compression failed", InvalidParameter gets "Invalid parameter" and NotImplemented
  gets "Feature not implemented"; none of these is the default, and the nine messages of
  the function are pairwise different, so each of the seven conditions has a message of
  its own. InvalidResume, WrongPasswordOrCorrupt and Cancelled have no enumerator in the
  sources, and every code that is not one of the eight case labels gets the message
  "Unknown error".
\<close>

theorem error_taxonomy_messages:
  assumes "inj E"
  shows "(\<forall>c \<in> {OpenFileFailed, InvalidOrCorruptArchive, MemoryAllocationFailed, ExtractFailed,
                 CompressFailed, InvalidParameter, NotImplemented}. has_specific_message E c)
       \<and> condition_message E OpenFileFailed = Some ''Failed to open file''
       \<and> condition_message E InvalidOrCorruptArchive = Some ''Invalid or corrupted archive''
       \<and> condition_message E MemoryAllocationFailed = Some ''Memory allocation failed''
       \<and> condition_message E ExtractFailed = Some ''Extraction failed''
       \<and> condition_message E CompressFailed = Some ''Compression failed''
       \<and> condition_message E InvalidParameter = Some ''Invalid parameter''
       \<and> condition_message E NotImplemented = Some ''Feature not implemented''
       \<and> sevenzip_get_error_message E (E SEVENZIP_OK) = ''Success''
       \<and> distinct error_messages
       \<and> (\<forall>c \<in> {OpenFileFailed, InvalidOrCorruptArchive, MemoryAllocationFailed, ExtractFailed,
                 CompressFailed, InvalidParameter, NotImplemented}.
            \<forall>c' \<in> {OpenFileFailed, InvalidOrCorruptArchive, MemoryAllocationFailed, ExtractFailed,
                 CompressFailed, InvalidParameter, NotImplemented}.
              c \<noteq> c' \<longrightarrow> condition_message E c \<noteq> condition_message E c')
       \<and> (\<forall>c \<in> {InvalidResume, WrongPasswordOrCorrupt, Cancelled}.
            condition_code c = None \<and> condition_message E c = None)
       \<and> (\<forall>error_code. error_code \<notin> range E \<longrightarrow>
             sevenzip_get_error_message E error_code = ''Unknown error'')"
proof -
  have specific: "\<forall>c \<in> {OpenFileFailed, InvalidOrCorruptArchive, MemoryAllocationFailed,
      ExtractFailed, CompressFailed, InvalidParameter, NotImplemented}. has_specific_message E c"
    using assms by (simp add: has_specific_message_def message_of_label)
  have own: "condition_message E OpenFileFailed = Some ''Failed to open file''"
    "condition_message E InvalidOrCorruptArchive = Some ''Invalid or corrupted archive''"
    "condition_message E MemoryAllocationFailed = Some ''Memory allocation failed''"
    "condition_message E ExtractFailed = Some ''Extraction failed''"
    "condition_message E CompressFailed = Some ''Compression failed''"
    "condition_message E InvalidParameter = Some ''Invalid parameter''"
    "condition_message E NotImplemented = Some ''Feature not implemented''"
    using assms by (simp_all add: condition_message_def message_of_label)
  have pairwise: "\<forall>c \<in> {OpenFileFailed, InvalidOrCorruptArchive, MemoryAllocationFailed,
      ExtractFailed, CompressFailed, InvalidParameter, NotImplemented}.
      \<forall>c' \<in> {OpenFileFailed, InvalidOrCorruptArchive, MemoryAllocationFailed,
      ExtractFailed, CompressFailed, InvalidParameter, NotImplemented}.
        c \<noteq> c' \<longrightarrow> condition_message E c \<noteq> condition_message E c'"
    by (simp add: own)
  have none: "\<forall>c \<in> {InvalidResume, WrongPasswordOrCorrupt, Cancelled}.
      condition_code c = None \<and> condition_message E c = None"
    by (simp add: condition_message_def)
  have dflt: "\<forall>error_code. error_code \<notin> range E \<longrightarrow>
      sevenzip_get_error_message E error_code = ''Unknown error''"
    by (simp add: message_default)
  from specific own message_of_label(1) [OF assms] error_messages_distinct pairwise none dflt
  show ?thesis by blast
qed

theorem error_taxonomy_messages_witness:
  "inj enum_order \<and> has_specific_message enum_order CompressFailed
   \<and> condition_message enum_order CompressFailed = Some ''Compression failed''
   \<and> condition_message enum_order OpenFileFailed \<noteq> condition_message enum_order CompressFailed
   \<and> sevenzip_get_error_message enum_order 5 = ''Compression failed''
   \<and> sevenzip_get_error_message enum_order 8 = ''Unknown error''"
  using error_taxonomy_messages [OF inj_enum_order]
  by (simp add: inj_enum_order sevenzip_get_error_message_def)

text \<open>
  Claim C4 as stated fails: the condition InvalidResume of the taxonomy has no error code
  with a specific message.
\<close>

theorem error_taxonomy_counterexample: "\<not> has_specific_message enum_order InvalidResume"
  by (simp add: has_specific_message_def)

text \<open>
  Claim C9: \<open>sevenzip_get_error_message\<close> is total. For every integer it returns one of
  the nine string literals of the function (never a null pointer), and for every integer
  that is not the value of an enumerator it returns "Unknown error".
\<close>

theorem get_error_message_total:
  "sevenzip_get_error_message E error_code \<in> set error_messages
   \<and> (error_code \<notin> range E \<longrightarrow> sevenzip_get_error_message E error_code = ''Unknown error'')"
  by (simp add: message_in_table message_default)

theorem get_error_message_total_witness:
  "(-3) \<notin> range enum_order \<and> sevenzip_get_error_message enum_order (-3) = ''Unknown error''
   \<and> sevenzip_get_error_message enum_order (-3) \<in> set error_messages"
proof -
  have r: "(-3) \<notin> range enum_order"
  proof
    assume "(-3) \<in> range enum_order"
    then obtain e where "enum_order e = -3" by auto
    then show False by (cases e) simp_all
  qed
  with get_error_message_total [of enum_order "-3"] show ?thesis by auto
qed

subsection \<open>Initialisation and cleanup\<close>

lemma init_times_initialized:
  "g_initialized s \<noteq> 0 \<Longrightarrow> init_times n gen s = s"
  by (induction n) (simp_all add: sevenzip_init_def)

lemma init_times_Suc: "init_times (Suc n) gen s = snd (sevenzip_init gen s)"
proof -
  have "g_initialized (snd (sevenzip_init gen s)) \<noteq> 0"
    by (simp add: sevenzip_init_def)
  then show ?thesis by (simp add: init_times_initialized)
qed

text \<open>
  Claim C8: \<open>sevenzip_init\<close> always returns \<open>SEVENZIP_OK\<close>; called on an initialised
  library it changes nothing (no table is generated again), so a second call in a row
  changes nothing and any number of calls equals one call; \<open>sevenzip_cleanup\<close> on an
  uninitialised library changes nothing, is idempotent, never touches the table, and one
  call of it after any number of \<open>sevenzip_init\<close> calls leaves the flag at zero.
\<close>

theorem init_cleanup_idempotent:
  "fst (sevenzip_init gen s) = SEVENZIP_OK
   \<and> (g_initialized s \<noteq> 0 \<longrightarrow> sevenzip_init gen s = (SEVENZIP_OK, s))
   \<and> sevenzip_init gen (snd (sevenzip_init gen s)) = (SEVENZIP_OK, snd (sevenzip_init gen s))
   \<and> init_times (Suc n) gen s = snd (sevenzip_init gen s)
   \<and> (g_initialized s = 0 \<longrightarrow> sevenzip_cleanup s = s)
   \<and> sevenzip_cleanup (sevenzip_cleanup s) = sevenzip_cleanup s
   \<and> g_initialized (sevenzip_cleanup (init_times n gen s)) = 0
   \<and> crc_table (sevenzip_cleanup s) = crc_table s"
proof -
  have "g_initialized (sevenzip_cleanup t) = 0" for t :: "'a lib_state"
    by (simp add: sevenzip_cleanup_def)
  then show ?thesis
    by (simp add: init_times_Suc del: init_times.simps)
       (simp add: sevenzip_init_def sevenzip_cleanup_def)
qed

theorem init_cleanup_idempotent_witness:
  "sevenzip_init Suc \<lparr>g_initialized = 1, crc_table = 5\<rparr> = (SEVENZIP_OK, \<lparr>g_initialized = 1, crc_table = 5\<rparr>)
   \<and> sevenzip_cleanup \<lparr>g_initialized = 0, crc_table = 5::nat\<rparr> = \<lparr>g_initialized = 0, crc_table = 5\<rparr>
   \<and> init_times 3 Suc \<lparr>g_initialized = 0, crc_table = 5\<rparr> = \<lparr>g_initialized = 1, crc_table = 6\<rparr>
   \<and> sevenzip_cleanup (init_times 3 Suc \<lparr>g_initialized = 0, crc_table = 5\<rparr>) = \<lparr>g_initialized = 0, crc_table = 6\<rparr>"
  using init_cleanup_idempotent [of Suc "\<lparr>g_initialized = 1, crc_table = 5\<rparr>" 3]
        init_cleanup_idempotent [of Suc "\<lparr>g_initialized = 0, crc_table = 5\<rparr>" 3]
  by (simp add: sevenzip_init_def sevenzip_cleanup_def numeral_3_eq_3)

subsection \<open>The legacy compress entry point\<close>

text \<open>
  Claim C7: \<open>sevenzip_compress\<close> returns exactly what \<open>sevenzip_create_7z\<close> returns on the
  same arguments and the default options (num_threads 0, dict_size 0, solid 1, the given
  password), and leaves the world exactly as that call leaves it.
\<close>

theorem compress_forwards_to_create_7z:
  "sevenzip_compress sevenzip_create_7z archive_path input_paths level pw progress_callback user_data w
   = sevenzip_create_7z archive_path input_paths level (default_options pw) progress_callback user_data w"
  by (simp add: sevenzip_compress_def default_options_def zero_options_def)

subsection \<open>Freeing an archive listing\<close>

lemma free_not_null: "free h p \<noteq> Inl NullDereference"
  by (simp add: free_def split: option.splits)

lemma free_lists: "free h p = Inr h' \<Longrightarrow> list_at h' = list_at h"
  by (auto simp: free_def split: option.splits if_splits)

lemma free_names_not_null:
  "list_at h a = Some L \<Longrightarrow> entries L \<noteq> None \<Longrightarrow> free_names h (Some a) i \<noteq> Inl NullDereference"
proof (induction h "Some a :: addr option" i rule: free_names.induct)
  case (1 h i)
  show ?case
  proof (cases "a \<in> live h \<and> i < count L")
    case False
    then show ?thesis using "1.prems"
      by (auto simp: free_names.simps [of h "Some a" i] read_list_def)
  next
    case True
    then have rl: "read_list h (Some a) = Inr L" using "1.prems" by (simp add: read_list_def)
    show ?thesis
    proof (cases "read_entry h (entries L) i")
      case (Inl e)
      then have "e \<noteq> NullDereference" using "1.prems"
        by (auto simp: read_entry_def split: option.splits if_splits)
      then show ?thesis using rl True Inl by (simp add: free_names.simps [of h "Some a" i])
    next
      case (Inr ent)
      show ?thesis
      proof (cases "if name ent \<noteq> None then free h (name ent) else Inr h")
        case (Inl e)
        then have "e \<noteq> NullDereference" using free_not_null [of h "name ent"]
          by (auto split: if_splits)
        then show ?thesis using rl True Inr Inl by (simp add: free_names.simps [of h "Some a" i])
      next
        case (Inr h')
        then have "list_at h' = list_at h" by (auto split: if_splits dest: free_lists)
        then have "free_names h' (Some a) (i + 1) \<noteq> Inl NullDereference"
          using "1.hyps" [OF rl _ \<open>read_entry h (entries L) i = Inr ent\<close> Inr] True "1.prems"
          by simp
        then show ?thesis using rl True \<open>read_entry h (entries L) i = Inr ent\<close> Inr
          by (simp add: free_names.simps [of h "Some a" i])
      qed
    qed
  qed
qed

lemma free_list_never_null: "sevenzip_free_list h list \<noteq> Inl NullDereference"
proof (cases list)
  case None
  then show ?thesis by (simp add: sevenzip_free_list_def)
next
  case (Some a)
  show ?thesis
  proof (cases "read_list h (Some a)")
    case (Inl e)
    then have "e \<noteq> NullDereference" by (auto simp: read_list_def split: option.splits if_splits)
    then show ?thesis using Some Inl by (simp add: sevenzip_free_list_def)
  next
    case (Inr L)
    then have la: "list_at h a = Some L" by (auto simp: read_list_def split: option.splits if_splits)
    show ?thesis
    proof (cases "entries L = None")
      case True
      then show ?thesis using Some Inr free_not_null by (simp add: sevenzip_free_list_def)
    next
      case False
      have fn: "free_names h (Some a) 0 \<noteq> Inl NullDereference"
        using free_names_not_null [OF la False] .
      have rl: "read_list h1 (Some a) \<noteq> Inl NullDereference" for h1
        by (auto simp: read_list_def split: option.splits if_splits)
      show ?thesis using Some Inr False fn rl free_not_null
        by (auto simp: sevenzip_free_list_def split: sum.splits)
    qed
  qed
qed


lemma names_of_drop_step:
  assumes "i < c" "c \<le> length es"
  shows "names_of (drop i (take c es)) =
           (case name (es ! i) of None \<Rightarrow> [] | Some n \<Rightarrow> [n]) @ names_of (drop (Suc i) (take c es))"
proof -
  have "drop i (take c es) = es ! i # drop (Suc i) (take c es)"
    using assms by (metis Cons_nth_drop_Suc length_take min.absorb2 nth_take)
  then show ?thesis
    by (simp add: names_of_def List.map_filter_simps split: option.splits)
qed

lemma free_names_frees:
  assumes "list_at h l = Some L" "entries L = Some a" "array_at h a = Some es"
    and "count L \<le> length es" "i \<le> count L"
    and "l \<in> live h" "a \<in> live h"
    and "distinct (names_of (drop i (take (count L) es)))"
    and "set (names_of (drop i (take (count L) es))) \<subseteq> live h - {l, a}"
  shows "free_names h (Some l) i =
           Inr (h\<lparr>live := live h - set (names_of (drop i (take (count L) es)))\<rparr>)"
  using assms
proof (induction "count L - i" arbitrary: h i)
  case 0
  then have "i = count L" by simp
  then show ?case using "0.prems"
    by (simp add: free_names.simps [of h "Some l" "count L"] read_list_def names_of_def
          List.map_filter_simps)
next
  case (Suc k)
  then have lt: "i < count L" by simp
  have rl: "read_list h (Some l) = Inr L" using Suc.prems by (simp add: read_list_def)
  have re: "read_entry h (entries L) i = Inr (es ! i)"
    using Suc.prems lt by (simp add: read_entry_def)
  note step = names_of_drop_step [OF lt \<open>count L \<le> length es\<close>]
  show ?case
  proof (cases "name (es ! i)")
    case None
    have eq: "names_of (drop i (take (count L) es)) = names_of (drop (Suc i) (take (count L) es))"
      using step None by simp
    have "free_names h (Some l) (Suc i) =
            Inr (h\<lparr>live := live h - set (names_of (drop (Suc i) (take (count L) es)))\<rparr>)"
      using Suc.hyps(2) Suc.prems lt eq by (intro Suc.hyps(1)) simp_all
    then show ?thesis using rl re lt None eq
      by (simp add: free_names.simps [of h "Some l" i])
  next
    case (Some n)
    let ?N = "names_of (drop (Suc i) (take (count L) es))"
    have eq: "names_of (drop i (take (count L) es)) = n # ?N"
      using step Some by simp
    have n_live: "n \<in> live h" and n_ne: "n \<noteq> l" "n \<noteq> a" and n_notin: "n \<notin> set ?N"
      and dN: "distinct ?N" and subN: "set ?N \<subseteq> live h - {l, a}"
      using Suc.prems(8,9) eq by auto
    let ?h' = "h\<lparr>live := live h - {n}\<rparr>"
    have fr: "free h (Some n) = Inr ?h'" using n_live by (simp add: free_def)
    have "free_names ?h' (Some l) (Suc i) = Inr (?h'\<lparr>live := live ?h' - set ?N\<rparr>)"
    proof (intro Suc.hyps(1))
      show "k = count L - Suc i" using Suc.hyps(2) by simp
      show "set ?N \<subseteq> live ?h' - {l, a}" using subN n_notin by auto
    qed (use Suc.prems lt n_ne dN in simp_all)
    moreover have "?h'\<lparr>live := live ?h' - set ?N\<rparr> = h\<lparr>live := live h - set (n # ?N)\<rparr>"
      by (simp add: Diff_insert2 [symmetric]) 
    ultimately show ?thesis using rl re lt Some fr eq
      by (simp add: free_names.simps [of h "Some l" i])
  qed
qed


lemma free_list_null_entries:
  assumes "list_at h l = Some L" "l \<in> live h" "entries L = None"
  shows "sevenzip_free_list h (Some l) = Inr (h\<lparr>live := live h - {l}\<rparr>)"
  using assms by (simp add: sevenzip_free_list_def read_list_def free_def)

lemma free_list_frees:
  assumes "list_at h l = Some L" "l \<in> live h" "entries L = Some a" "a \<in> live h" "a \<noteq> l"
    and "array_at h a = Some es" "count L \<le> length es"
    and "distinct (names_of (take (count L) es))"
    and "set (names_of (take (count L) es)) \<subseteq> live h - {l, a}"
  shows "sevenzip_free_list h (Some l) =
           Inr (h\<lparr>live := live h - ({l, a} \<union> set (names_of (take (count L) es)))\<rparr>)"
proof -
  let ?N = "set (names_of (take (count L) es))"
  let ?h1 = "h\<lparr>live := live h - ?N\<rparr>"
  have fn: "free_names h (Some l) 0 = Inr ?h1"
    using free_names_frees [of h l L a es 0] assms by simp
  have rl: "read_list h (Some l) = Inr L" using assms by (simp add: read_list_def)
  have rl1: "read_list ?h1 (Some l) = Inr L" using assms by (auto simp: read_list_def)
  have f1: "free ?h1 (Some a) = Inr (h\<lparr>live := live h - ?N - {a}\<rparr>)"
    using assms by (auto simp: free_def)
  have f2: "free (h\<lparr>live := live h - ?N - {a}\<rparr>) (Some l) = Inr (h\<lparr>live := live h - ?N - {a} - {l}\<rparr>)"
    using assms by (auto simp: free_def)
  have "live h - ?N - {a} - {l} = live h - ({l, a} \<union> ?N)" by auto
  then show ?thesis using fn rl rl1 f1 f2 assms(3)
    by (simp add: sevenzip_free_list_def)
qed

text \<open>
  Claim C10: \<open>sevenzip_free_list\<close> on the null pointer returns at once and leaves the heap
  as it is; no call of it, on any heap and any pointer, dereferences a null pointer; on a
  list whose \<open>entries\<close> pointer is null it frees the list structure alone; and on a list
  with an entry array it frees exactly the non-null names of the first \<open>count\<close> entries,
  the array and the list structure.
\<close>

theorem free_list_null_safe:
  "sevenzip_free_list h None = Inr h
   \<and> sevenzip_free_list h list \<noteq> Inl NullDereference
   \<and> (list_at h l = Some L \<and> l \<in> live h \<and> entries L = None \<longrightarrow>
        sevenzip_free_list h (Some l) = Inr (h\<lparr>live := live h - {l}\<rparr>))
   \<and> (list_at h l = Some L \<and> l \<in> live h \<and> entries L = Some a \<and> a \<in> live h \<and> a \<noteq> l
        \<and> array_at h a = Some es \<and> count L \<le> length es
        \<and> distinct (names_of (take (count L) es))
        \<and> set (names_of (take (count L) es)) \<subseteq> live h - {l, a} \<longrightarrow>
        sevenzip_free_list h (Some l) =
          Inr (h\<lparr>live := live h - ({l, a} \<union> set (names_of (take (count L) es)))\<rparr>))"
  using free_list_never_null free_list_null_entries free_list_frees
  by (simp add: sevenzip_free_list_def)

theorem free_list_null_safe_witness:
  "sevenzip_free_list example_heap None = Inr example_heap
   \<and> sevenzip_free_list example_heap (Some 50) = Inr (example_heap\<lparr>live := {10, 20, 30, 40, 90}\<rparr>)
   \<and> sevenzip_free_list example_heap (Some 10) = Inr (example_heap\<lparr>live := {50, 90}\<rparr>)"
proof -
  have a: "{10, 20, 30, 40, 50, 90} - {50::nat} = {10, 20, 30, 40, 90}" by auto
  have b: "{10, 20, 30, 40, 50, 90} - {10, 20, 30, 40::nat} = {50, 90}" by auto
  show ?thesis
    using free_list_null_safe [of example_heap None 50 "\<lparr>entries = None, count = 7\<rparr>"]
          free_list_null_safe [of example_heap None 10 "\<lparr>entries = Some 20, count = 3\<rparr>" 20
            "[\<lparr>name = Some 30\<rparr>, \<lparr>name = None\<rparr>, \<lparr>name = Some 40\<rparr>]"]
    by (simp add: example_heap_def names_of_def List.map_filter_simps a b)
qed

subsection \<open>Progress tracking\<close>

lemma callback_gate:
  "now \<le> last_update_time s \<Longrightarrow> forensic_progress_callback D now b s = Some s"
  by (simp add: forensic_progress_callback_def)

lemma callback_step:
  assumes "forensic_progress_callback D now b s = Some s'"
  shows "(now \<le> last_update_time s \<and> s' = s) \<or>
         (last_update_time s < now \<and> last_update_time s' = now
          \<and> update_count s' = update_count s + 1 \<and> last_bytes s' = b)"
  using assms by (auto simp: forensic_progress_callback_def Let_def split: if_splits)

lemma callback_first:
  assumes "forensic_progress_callback D now b s = Some s'" "last_update_time s < now"
    "update_count s = 0"
  shows "avg_speed s' = current_speed D now b s"
  using assms by (auto simp: forensic_progress_callback_def Let_def split: if_splits)

lemma callback_later:
  assumes "forensic_progress_callback D now b s = Some s'" "last_update_time s < now"
    "update_count s \<noteq> 0"
  shows "avg_speed s' = fadd D (fmul D (avg_speed s) (literal D (7 / 10)))
                                (fmul D (current_speed D now b s) (literal D (3 / 10)))"
  using assms by (auto simp: forensic_progress_callback_def Let_def split: if_splits)

lemma callback_same_second:
  assumes "forensic_progress_callback D now b s = Some s'"
  shows "forensic_progress_callback D now b' s' = Some s'"
proof -
  have "now \<le> last_update_time s'"
    using callback_step [OF assms] by auto
  then show ?thesis by (rule callback_gate)
qed

lemma callback_returns:
  "update_count s \<noteq> INT_MAX \<Longrightarrow> \<exists>s'. forensic_progress_callback D now b s = Some s'"
  by (simp add: forensic_progress_callback_def Let_def)

lemma run_callbacks_rate:
  "run_callbacks D calls s = Some s' \<Longrightarrow>
   update_count s \<le> update_count s'
   \<and> update_count s' - update_count s \<le> last_update_time s' - last_update_time s"
proof (induction calls arbitrary: s)
  case Nil
  then show ?case by simp
next
  case (Cons c calls)
  obtain now b where c: "c = (now, b)" by (cases c)
  from Cons.prems c obtain s1 where
    s1: "forensic_progress_callback D now b s = Some s1" and r: "run_callbacks D calls s1 = Some s'"
    by (auto split: option.splits)
  from callback_step [OF s1] Cons.IH [OF r] show ?case by auto
qed

lemma run_callbacks_returns:
  "0 \<le> update_count s \<Longrightarrow> update_count s + int (length calls) \<le> INT_MAX \<Longrightarrow>
   \<exists>s'. run_callbacks D calls s = Some s'"
proof (induction calls arbitrary: s)
  case Nil
  then show ?case by simp
next
  case (Cons c calls)
  obtain now b where c: "c = (now, b)" by (cases c)
  from Cons.prems have "update_count s \<noteq> INT_MAX" by auto
  from callback_returns [OF this] obtain s1 where
    s1: "forensic_progress_callback D now b s = Some s1" by blast
  from callback_step [OF s1] Cons.prems
  have "0 \<le> update_count s1" "update_count s1 + int (length calls) \<le> INT_MAX" by auto
  from Cons.IH [OF this] s1 c show ?case by simp
qed

text \<open>
  Claim C5: the speed is recomputed only when the clock has advanced past the last update:
  a call at a time not after \<open>last_update_time\<close> leaves the state as it is, so a second
  call within the same second recomputes nothing, and over any run of calls the number of
  recomputations is at most the number of seconds by which \<open>last_update_time\<close> advanced.
  The first recomputation (\<open>update_count = 0\<close>) sets the average to the instantaneous
  speed; every later one sets it to the previous average times 0.7 plus the instantaneous
  speed times 0.3. The callback returns a state unless the count of updates is at
  \<open>INT_MAX\<close>.
\<close>

theorem progress_speed_smoothing:
  "(now \<le> last_update_time s \<longrightarrow> forensic_progress_callback D now b s = Some s)
   \<and> (forensic_progress_callback D now b s = Some s' \<longrightarrow>
        forensic_progress_callback D now b' s' = Some s')
   \<and> (forensic_progress_callback D now b s = Some s' \<and> last_update_time s < now
        \<and> update_count s = 0 \<longrightarrow>
        avg_speed s' = current_speed D now b s \<and> update_count s' = 1)
   \<and> (forensic_progress_callback D now b s = Some s' \<and> last_update_time s < now
        \<and> update_count s \<noteq> 0 \<longrightarrow>
        avg_speed s' = fadd D (fmul D (avg_speed s) (literal D (7 / 10)))
                              (fmul D (current_speed D now b s) (literal D (3 / 10)))
        \<and> update_count s' = update_count s + 1)
   \<and> (run_callbacks D calls s = Some s'' \<longrightarrow>
        update_count s \<le> update_count s''
        \<and> update_count s'' - update_count s \<le> last_update_time s'' - last_update_time s)
   \<and> (update_count s \<noteq> INT_MAX \<longrightarrow> (\<exists>t. forensic_progress_callback D now b s = Some t))
   \<and> (0 \<le> update_count s \<and> update_count s + int (length calls) \<le> INT_MAX \<longrightarrow>
        (\<exists>t. run_callbacks D calls s = Some t))"
  using callback_gate [of now s D b] callback_same_second [of D now b s s' b']
    callback_first [of D now b s s'] callback_later [of D now b s s']
    callback_step [of D now b s s'] run_callbacks_rate [of D calls s s'']
    callback_returns [of s D now b] run_callbacks_returns [of s calls D]
  by auto


theorem progress_speed_smoothing_witness:
  "forensic_progress_callback exact_ops 101 1000 (zero_progress 100) =
     Some \<lparr>start_time = 100, last_bytes = 1000, last_update_time = 101, avg_speed = 1000,
            update_count = 1\<rparr>
   \<and> forensic_progress_callback exact_ops 101 1500
        \<lparr>start_time = 100, last_bytes = 1000, last_update_time = 101, avg_speed = 1000,
           update_count = 1\<rparr> =
     Some \<lparr>start_time = 100, last_bytes = 1000, last_update_time = 101, avg_speed = 1000,
            update_count = 1\<rparr>
   \<and> forensic_progress_callback exact_ops 103 2000
        \<lparr>start_time = 100, last_bytes = 1000, last_update_time = 101, avg_speed = 1000,
           update_count = 1\<rparr> =
     Some \<lparr>start_time = 100, last_bytes = 2000, last_update_time = 103, avg_speed = 850,
            update_count = 2\<rparr>
   \<and> run_callbacks exact_ops [(101, 1000), (101, 1500), (103, 2000)] (zero_progress 100) =
     Some \<lparr>start_time = 100, last_bytes = 2000, last_update_time = 103, avg_speed = 850,
            update_count = 2\<rparr>"
  using progress_speed_smoothing [where D = exact_ops and now = 101 and b = 1000
          and s = "zero_progress 100" and b' = 1500
          and s' = "\<lparr>start_time = 100, last_bytes = 1000, last_update_time = 101,
                     avg_speed = 1000, update_count = 1\<rparr>"
          and calls = "[(101, 1000), (101, 1500), (103, 2000)]"
          and s'' = "\<lparr>start_time = 100, last_bytes = 2000, last_update_time = 103,
                      avg_speed = 850, update_count = 2\<rparr>"]
        progress_speed_smoothing [where D = exact_ops and now = 103 and b = 2000
          and s = "\<lparr>start_time = 100, last_bytes = 1000, last_update_time = 101,
                     avg_speed = 1000, update_count = 1\<rparr>" and b' = 0
          and s' = "\<lparr>start_time = 100, last_bytes = 2000, last_update_time = 103,
                     avg_speed = 850, update_count = 2\<rparr>"
          and calls = "[]"
          and s'' = "\<lparr>start_time = 100, last_bytes = 1000, last_update_time = 101,
                      avg_speed = 1000, update_count = 1\<rparr>"]
  by (simp add: forensic_progress_callback_def current_speed_def exact_ops_def zero_progress_def
        INT_MAX_def Let_def)

subsection \<open>Size arguments\<close>













subsection \<open>The encryption round trip\<close>

lemma pad_length: "length (pad p) mod 16 = 0" "pad p \<noteq> []"
proof -
  let ?n = "16 - length p mod 16"
  have n: "0 < ?n" by simp
  have "(length p + ?n) mod 16 = 0"
    by presburger
  then show "length (pad p) mod 16 = 0" by (simp add: pad_def Let_def)
  show "pad p \<noteq> []" using n by (simp add: pad_def Let_def)
qed


lemma split_blocks_Nil: "split_blocks [] = []"
  by (simp add: split_blocks.simps)

lemma split_blocks_step: "bs \<noteq> [] \<Longrightarrow> split_blocks bs = take 16 bs # split_blocks (drop 16 bs)"
  by (subst split_blocks.simps) simp

lemma split_blocks_concat:
  "\<forall>b \<in> set bss. length b = 16 \<Longrightarrow> split_blocks (concat bss) = bss"
proof (induction bss)
  case Nil
  then show ?case by (simp add: split_blocks_Nil)
next
  case (Cons b bss)
  then have b: "length b = 16" and ne: "b @ concat bss \<noteq> []" by auto
  have "split_blocks (b @ concat bss) =
          take 16 (b @ concat bss) # split_blocks (drop 16 (b @ concat bss))"
    using ne by (rule split_blocks_step)
  then show ?case using b Cons by simp
qed

lemma whole_blocks_ge: "(n::nat) mod 16 = 0 \<Longrightarrow> n \<noteq> 0 \<Longrightarrow> 16 \<le> n"
  by (metis mod_less not_le)

lemma whole_blocks_diff: "(n::nat) mod 16 = 0 \<Longrightarrow> 16 \<le> n \<Longrightarrow> (n - 16) mod 16 = 0"
  by (metis le_mod_geq)

lemma split_blocks_whole:
  "length bs mod 16 = 0 \<Longrightarrow>
   concat (split_blocks bs) = bs \<and> (\<forall>b \<in> set (split_blocks bs). length b = 16)"
proof (induction bs rule: split_blocks.induct)
  case (1 bs)
  show ?case
  proof (cases "bs = []")
    case True
    then show ?thesis by (simp add: split_blocks_Nil)
  next
    case False
    then have "length bs \<noteq> 0" by simp
    with "1.prems" have len: "16 \<le> length bs" by (rule whole_blocks_ge)
    with "1.prems" have "(length bs - 16) mod 16 = 0" by (rule whole_blocks_diff)
    then have "length (drop 16 bs) mod 16 = 0" by (simp only: length_drop)
    note both = "1.IH" [OF False this]
    have ih1: "concat (split_blocks (drop 16 bs)) = drop 16 bs"
      using both by (rule conjunct1)
    have ih2: "\<forall>b \<in> set (split_blocks (drop 16 bs)). length b = 16"
      using both by (rule conjunct2)
    have t: "length (take 16 bs) = 16" using len by simp
    have "concat (split_blocks bs) = take 16 bs @ drop 16 bs"
      by (simp only: split_blocks_step [OF False] concat.simps ih1)
    moreover have "\<forall>b \<in> set (split_blocks bs). length b = 16"
      using ih2 t by (simp only: split_blocks_step [OF False] set_simps ball_simps)
    ultimately show ?thesis by simp
  qed
qed

lemma xor_bytes_length: "length a = length b \<Longrightarrow> length (xor_bytes a b) = length a"
  by (simp add: xor_bytes_def)

lemma xor_bytes_cancel: "length a = length b \<Longrightarrow> xor_bytes (xor_bytes a b) b = a"
proof (induction a arbitrary: b)
  case Nil
  then show ?case by (simp add: xor_bytes_def)
next
  case (Cons x a)
  then obtain y b' where b: "b = y # b'" by (cases b) auto
  with Cons have "xor_bytes (xor_bytes a b') b' = a" by simp
  then show ?case by (simp add: b xor_bytes_def xor.assoc)
qed

lemma cbc_round_trip:
  assumes "correct_cipher C"
  shows "length prev = 16 \<Longrightarrow> \<forall>p \<in> set ps. length p = 16 \<Longrightarrow>
         cbc_decrypt C ctx prev (cbc_encrypt C ctx prev ps) = ps
         \<and> (\<forall>c \<in> set (cbc_encrypt C ctx prev ps). length c = 16)"
proof (induction ps arbitrary: prev)
  case Nil
  then show ?case by simp
next
  case (Cons p ps)
  let ?x = "xor_bytes p prev"
  let ?c = "encrypt_block C ctx ?x"
  have lx: "length ?x = 16" using Cons.prems by (simp add: xor_bytes_length)
  then have lc: "length ?c = 16" and dc: "decrypt_block C ctx ?c = ?x"
    using assms by (auto simp: correct_cipher_def)
  have "xor_bytes ?x prev = p" using Cons.prems by (simp add: xor_bytes_cancel)
  moreover have "cbc_decrypt C ctx ?c (cbc_encrypt C ctx ?c ps) = ps
      \<and> (\<forall>c \<in> set (cbc_encrypt C ctx ?c ps). length c = 16)"
    using Cons.IH [OF lc] Cons.prems by simp
  ultimately show ?case using lc dc by (simp add: Let_def)
qed

lemma unat_small: "n \<le> 16 \<Longrightarrow> unat (of_nat n :: byte) = n"
  by (simp add: unat_of_nat)

lemma unpad_append:
  assumes "0 < n" "n \<le> 16"
  shows "unpad (p @ replicate n (of_nat n)) = Inr p"
proof -
  let ?bs = "p @ replicate n (of_nat n :: byte)"
  have l: "last ?bs = of_nat n" using assms by simp
  have ne: "?bs \<noteq> []" using assms by simp
  have d: "drop (length ?bs - n) ?bs = replicate n (of_nat n)" by simp
  have t: "take (length ?bs - n) ?bs = p" by simp
  have "unpad ?bs =
     (let k = unat (last ?bs)
      in if k = 0 \<or> 16 < k \<or> length ?bs < k
            \<or> drop (length ?bs - k) ?bs \<noteq> replicate k (last ?bs)
         then Inl WrongPasswordOrCorrupt
         else Inr (take (length ?bs - k) ?bs))"
    using ne by (simp only: unpad_def if_False)
  also have "\<dots> = Inr (take (length ?bs - n) ?bs)"
    unfolding Let_def l unat_small [OF assms(2)] d using assms by simp
  finally show ?thesis unfolding t .
qed

lemma unpad_pad: "unpad (pad p) = Inr p"
  unfolding pad_def Let_def by (rule unpad_append) simp_all

lemma decrypt_whole:
  "ct \<noteq> [] \<Longrightarrow> length ct mod 16 = 0 \<Longrightarrow>
   sevenzip_decrypt_data C ctx iv ct = unpad (concat (cbc_decrypt C ctx iv (split_blocks ct)))"
  by (simp add: sevenzip_decrypt_data_def)

lemma concat_blocks_length:
  "\<forall>c \<in> set cs. length c = 16 \<Longrightarrow> length (concat cs) = 16 * length cs"
  by (induction cs) auto

lemma decrypt_encrypt:
  assumes "correct_cipher C" "length iv = 16"
  shows "sevenzip_decrypt_data C ctx iv (sevenzip_encrypt_data C ctx iv plaintext) = Inr plaintext"
proof -
  let ?ps = "split_blocks (pad plaintext)"
  let ?cs = "cbc_encrypt C ctx iv ?ps"
  have ps: "concat ?ps = pad plaintext" "\<forall>b \<in> set ?ps. length b = 16"
    using split_blocks_whole [OF pad_length(1), of plaintext] by auto
  have psne: "?ps \<noteq> []" using ps(1) pad_length(2) [of plaintext] by auto
  have rt: "cbc_decrypt C ctx iv ?cs = ?ps" and cs: "\<forall>c \<in> set ?cs. length c = 16"
    using cbc_round_trip [OF assms(1,2) ps(2)] by auto
  have csne: "?cs \<noteq> []" using psne by (cases ?ps) (auto simp: Let_def)
  have len: "length (concat ?cs) = 16 * length ?cs"
    using cs by (rule concat_blocks_length)
  have cne: "concat ?cs \<noteq> []" using csne cs by (cases ?cs) auto
  have "length (concat ?cs) mod 16 = 0" using len by simp
  then have "sevenzip_decrypt_data C ctx iv (concat ?cs) =
               unpad (concat (cbc_decrypt C ctx iv (split_blocks (concat ?cs))))"
    using cne by (rule decrypt_whole [rotated])
  also have "\<dots> = unpad (concat ?ps)"
    using split_blocks_concat [OF cs] rt by simp
  also have "\<dots> = Inr plaintext" by (simp add: ps(1) unpad_pad)
  finally show ?thesis by (simp add: sevenzip_encrypt_data_def)
qed


text \<open>
  Claim C2: for every plaintext, password and salt, initialising encryption with the
  password (which gives key, IV and salt), encrypting the plaintext, initialising
  decryption from the same password and salt (which gives the same key) and decrypting
  under the same IV returns exactly the plaintext, hence with its length. The block
  cipher is assumed correct and the derived IV is one block long.
\<close>

theorem encryption_round_trip:
  assumes "correct_cipher C" "length (snd (derive C pw salt)) = 16"
  shows "(case sevenzip_init_encryption C pw salt of
            (key, iv, salt', ctx) \<Rightarrow>
              (case sevenzip_init_decryption C pw salt' of
                 (dkey, dctx) \<Rightarrow>
                   dkey = key
                   \<and> sevenzip_decrypt_data C dctx iv (sevenzip_encrypt_data C ctx iv plaintext)
                       = Inr plaintext))"
proof -
  obtain key iv where d: "derive C pw salt = (key, iv)" by (cases "derive C pw salt")
  then have "length iv = 16" using assms(2) by simp
  from decrypt_encrypt [OF assms(1) this] show ?thesis
    by (simp add: sevenzip_init_encryption_def sevenzip_init_decryption_def d)
qed

lemma toy_crypto_correct: "correct_cipher toy_crypto"
  by (simp add: correct_cipher_def toy_crypto_def comp_def)

theorem encryption_round_trip_witness:
  "correct_cipher toy_crypto
   \<and> length (snd (derive toy_crypto ''TestPassword123!'' [1, 2, 3])) = 16
   \<and> (case sevenzip_init_encryption toy_crypto ''TestPassword123!'' [1, 2, 3] of
         (key, iv, salt', ctx) \<Rightarrow>
           (case sevenzip_init_decryption toy_crypto ''TestPassword123!'' salt' of
              (dkey, dctx) \<Rightarrow>
                dkey = key
                \<and> sevenzip_decrypt_data toy_crypto dctx iv
                      (sevenzip_encrypt_data toy_crypto ctx iv [84, 104, 105, 115])
                    = Inr [84, 104, 105, 115]))"
proof -
  have l: "length (snd (derive toy_crypto ''TestPassword123!'' [1, 2, 3])) = 16"
    by (simp add: toy_crypto_def)
  show ?thesis
    by (intro conjI toy_crypto_correct l encryption_round_trip [OF toy_crypto_correct l])
qed

end
